theory Spec2Isabelle
  imports Complex_Main "HOL-Library.Word" "HOL-Library.List_Lexorder"
begin

unbundle bit_operations_syntax

section \<open>Values of the runtime\<close>

text \<open>
  A \<^verbatim>\<open>Buffer\<close> is a sequence of bytes. Reading an array outside its bounds gives
  \<^verbatim>\<open>undefined\<close>, so a value of type \<^verbatim>\<open>Buffer | undefined\<close> is a \<open>slot\<close>, with \<open>None\<close> for
  \<^verbatim>\<open>undefined\<close>. Index arguments are integral numbers, modelled as \<open>int\<close>. The only error
  the class can raise is the runtime's \<^verbatim>\<open>TypeError\<close> (reading a property of \<^verbatim>\<open>undefined\<close>,
  spreading \<^verbatim>\<open>undefined\<close>, or comparing a Buffer with \<^verbatim>\<open>undefined\<close>).
\<close>

type_synonym byte = "8 word"
type_synonym buffer = "byte list"
type_synonym slot = "buffer option"

datatype error = TypeError

text \<open>\<^verbatim>\<open>arr[i]\<close>: the element, or \<^verbatim>\<open>undefined\<close> when \<open>i\<close> is negative or past the end.\<close>

definition js_nth :: "'a list \<Rightarrow> int \<Rightarrow> 'a option" where
  "js_nth arr i = (if 0 \<le> i \<and> i < int (length arr) then Some (arr ! nat i) else None)"

text \<open>
  \<^verbatim>\<open>arr.reduce(f, init)\<close> on a dense array: the callback receives the accumulator, the
  current element, its index and the array.
\<close>

definition js_reduce :: "('b \<Rightarrow> 'a \<Rightarrow> nat \<Rightarrow> 'a list \<Rightarrow> 'b) \<Rightarrow> 'b \<Rightarrow> 'a list \<Rightarrow> 'b" where
  "js_reduce f init arr = foldl (\<lambda>acc idx. f acc (arr ! idx) idx arr) init [0..<length arr]"

text \<open>
  \<^verbatim>\<open>a ^ b\<close>: both operands are converted to 32-bit two's complement integers, the result
  is the signed value of their bitwise exclusive or.
\<close>

definition js_xor :: "int \<Rightarrow> int \<Rightarrow> int" where
  "js_xor a b = sint ((word_of_int a :: 32 word) XOR word_of_int b)"

text \<open>
  \<^verbatim>\<open>[a, b].sort(cmp)\<close> for a two-element array: the elements are exchanged exactly when
  the comparator puts the first after the second.
\<close>

definition js_sort2 :: "('a \<Rightarrow> 'a \<Rightarrow> int) \<Rightarrow> 'a \<Rightarrow> 'a \<Rightarrow> 'a \<times> 'a" where
  "js_sort2 cmp a b = (if 0 < cmp a b then (b, a) else (a, b))"

section \<open>Library functions the class calls\<close>

subsection \<open>\<^verbatim>\<open>keccak_256.digest\<close> of js-sha3\<close>

text \<open>
  js-sha3 is a dependency, not a file of the repository. Its digest is modelled from the
  Keccak specification: the sponge over Keccak-f[1600] with a rate of 136 bytes, the
  original Keccak padding (\<open>0x01\<close>, zeros, \<open>0x80\<close>) and 32 bytes of output. The state is
  25 lanes of 64 bits, lane \<open>(x, y)\<close> at position \<open>x + 5 * y\<close>. The proofs below use the
  digest as an opaque function of the message; only its length is looked at.
\<close>

type_synonym lane = "64 word"

definition RC :: "lane list" where
  "RC = [0x0000000000000001, 0x0000000000008082, 0x800000000000808A, 0x8000000080008000,
         0x000000000000808B, 0x0000000080000001, 0x8000000080008081, 0x8000000000008009,
         0x000000000000008A, 0x0000000000000088, 0x0000000080008009, 0x000000008000000A,
         0x000000008000808B, 0x800000000000008B, 0x8000000000008089, 0x8000000000008003,
         0x8000000000008002, 0x8000000000000080, 0x000000000000800A, 0x800000008000000A,
         0x8000000080008081, 0x8000000000008080, 0x0000000080000001, 0x8000000080008008]"

definition rho_offsets :: "nat list" where
  "rho_offsets = [ 0,  1, 62, 28, 27,
                  36, 44,  6, 55, 20,
                   3, 10, 43, 25, 39,
                  41, 45, 15, 21,  8,
                  18,  2, 61, 56, 14]"

definition theta :: "lane list \<Rightarrow> lane list" where
  "theta A =
    (let C = map (\<lambda>x. A ! x XOR A ! (x + 5) XOR A ! (x + 10) XOR A ! (x + 15) XOR A ! (x + 20)) [0..<5];
         D = map (\<lambda>x. C ! ((x + 4) mod 5) XOR word_rotl 1 (C ! ((x + 1) mod 5))) [0..<5]
     in map (\<lambda>i. A ! i XOR D ! (i mod 5)) [0..<25])"

definition rho_pi :: "lane list \<Rightarrow> lane list" where
  "rho_pi A =
    map (\<lambda>j. let i = (j mod 5 + 3 * (j div 5)) mod 5 + 5 * (j mod 5)
             in word_rotl (rho_offsets ! i) (A ! i)) [0..<25]"

definition chi :: "lane list \<Rightarrow> lane list" where
  "chi B =
    map (\<lambda>j. let r = 5 * (j div 5); x = j mod 5
             in B ! j XOR (NOT (B ! (r + (x + 1) mod 5)) AND B ! (r + (x + 2) mod 5))) [0..<25]"

definition iota :: "lane \<Rightarrow> lane list \<Rightarrow> lane list" where
  "iota rc A = A[0 := A ! 0 XOR rc]"

definition keccak_f :: "lane list \<Rightarrow> lane list" where
  "keccak_f A = foldl (\<lambda>S rc. iota rc (chi (rho_pi (theta S)))) A RC"

primrec le_lane :: "byte list \<Rightarrow> lane" where
  "le_lane [] = 0"
| "le_lane (b # bs) = ucast b OR push_bit 8 (le_lane bs)"

definition pad :: "byte list \<Rightarrow> byte list" where
  "pad msg =
    (let q = 136 - length msg mod 136
     in msg @ (if q = 1 then [0x81] else 0x01 # replicate (q - 2) 0 @ [0x80]))"

definition absorb :: "lane list \<Rightarrow> byte list \<Rightarrow> lane list" where
  "absorb S block =
    keccak_f (map (\<lambda>i. if i < 17 then S ! i XOR le_lane (take 8 (drop (8 * i) block)) else S ! i)
                [0..<25])"

definition keccak_256 :: "byte list \<Rightarrow> buffer" where
  "keccak_256 msg =
    (let p = pad msg;
         S = foldl (\<lambda>S k. absorb S (take 136 (drop (136 * k) p))) (replicate 25 0)
               [0..<length p div 136]
     in map (\<lambda>i. ucast (drop_bit (8 * (i mod 8)) (S ! (i div 8)))) [0..<32])"

subsection \<open>\<^verbatim>\<open>Buffer.from\<close> and \<^verbatim>\<open>Buffer.compare\<close> of the runtime\<close>

text \<open>
  \<^verbatim>\<open>Buffer\<close> is the runtime's, modelled from its documentation. \<^verbatim>\<open>Buffer.from(string)\<close> is
  the UTF-8 encoding of the string. An identity is a \<open>string\<close> here, each character a code
  point below 256: one byte below 128, two bytes from there.
\<close>

definition utf8 :: "char \<Rightarrow> byte list" where
  "utf8 c =
    (let n = (of_char c :: nat)
     in if n < 128 then [of_nat n] else [0xC0 OR of_nat (n div 64), 0x80 OR of_nat (n mod 64)])"

definition Buffer_from :: "string \<Rightarrow> buffer" where
  "Buffer_from s = concat (map utf8 s)"

text \<open>
  \<^verbatim>\<open>Buffer.compare(a, b)\<close> is \<open>-1\<close>, \<open>0\<close> or \<open>1\<close>: the first differing byte decides, read
  unsigned; a proper prefix comes first.
\<close>

fun Buffer_compare :: "buffer \<Rightarrow> buffer \<Rightarrow> int" where
  "Buffer_compare [] [] = 0"
| "Buffer_compare [] (y # ys) = - 1"
| "Buffer_compare (x # xs) [] = 1"
| "Buffer_compare (x # xs) (y # ys) =
    (if x < y then - 1 else if y < x then 1 else Buffer_compare xs ys)"

section \<open>The class \<^verbatim>\<open>MerkleTree\<close>\<close>

record MerkleTree =
  data :: "string list"
  leafs :: "buffer list"
  layers :: "buffer list list"

text \<open>\<^verbatim>\<open>buildLeaves\<close>: the loop pushes \<^verbatim>\<open>Buffer.from(data[idx])\<close> for each index in turn.\<close>

definition buildLeaves :: "string list \<Rightarrow> buffer list" where
  "buildLeaves d = foldl (\<lambda>leaves idx. leaves @ [Buffer_from (d ! idx)]) [] [0..<length d]"

definition nodeHash :: "buffer \<Rightarrow> buffer" where
  "nodeHash bytes = keccak_256 (0x00 # bytes)"

definition internalHash :: "buffer \<Rightarrow> slot \<Rightarrow> buffer" where
  "internalHash first second =
    (case second of
       None \<Rightarrow> first
     | Some s \<Rightarrow> (case js_sort2 Buffer_compare first s of (fst', snd') \<Rightarrow> keccak_256 (0x01 # fst' @ snd')))"

text \<open>The \<^verbatim>\<open>reduce\<close> of the constructor's loop body: one pass from a layer to the next.\<close>

definition reduce_layer :: "buffer list \<Rightarrow> buffer list" where
  "reduce_layer hashes =
    js_reduce (\<lambda>acc cur idx arr.
        if idx mod 2 = 0 then acc @ [internalHash cur (js_nth arr (int idx + 1))] else acc)
      [] hashes"

text \<open>
  The accumulator of that \<^verbatim>\<open>reduce\<close> after the callback has run on the first \<open>n\<close>
  elements (used to reason about the pass element by element).
\<close>

definition reduce_upto :: "buffer list \<Rightarrow> nat \<Rightarrow> buffer list" where
  "reduce_upto hashes n = foldl (\<lambda>acc idx. if idx mod 2 = 0
            then acc @ [internalHash (hashes ! idx) (js_nth hashes (int idx + 1))] else acc)
          [] [0..<n]"

text \<open>
  The constructor's \<^verbatim>\<open>while\<close> loop, with the layers pushed so far. The loop ends since a
  pass over two or more hashes returns fewer.
\<close>

function build_layers :: "buffer list \<Rightarrow> buffer list list \<Rightarrow> buffer list list" where
  "build_layers hashes ls =
    (if 0 < length hashes
     then (if length hashes = 1 then ls @ [hashes]
           else build_layers (reduce_layer hashes) (ls @ [hashes]))
     else ls)"
  by pat_completeness auto
termination
proof (relation "measure (\<lambda>(hashes, ls). length hashes)")
  show "wf (measure (\<lambda>(hashes, ls). length hashes))" by simp
next
  fix hashes :: "buffer list" and ls :: "buffer list list"
  assume pos: "0 < length hashes" and more: "length hashes \<noteq> 1"
  have "length (reduce_upto hashes n) = (n + 1) div 2" for n
    unfolding reduce_upto_def by (induction n) (auto, presburger+)
  then have "length (reduce_layer hashes) = (length hashes + 1) div 2"
    by (simp add: reduce_layer_def js_reduce_def reduce_upto_def)
  moreover from pos more have "(length hashes + 1) div 2 < length hashes"
    by linarith
  ultimately
  show "((reduce_layer hashes, ls @ [hashes]), (hashes, ls)) \<in> measure (\<lambda>(hashes, ls). length hashes)"
    by simp
qed

declare build_layers.simps [simp del]

definition new_MerkleTree :: "string list \<Rightarrow> MerkleTree" where
  "new_MerkleTree d =
    (let lf = buildLeaves d
     in \<lparr>data = d, leafs = lf, layers = build_layers (map nodeHash lf) []\<rparr>)"

text \<open>
  \<^verbatim>\<open>getRoot\<close>: with no layer, \<^verbatim>\<open>this.layers[-1]\<close> is \<^verbatim>\<open>undefined\<close> and reading its element
  \<open>0\<close> throws.
\<close>

definition getRoot :: "MerkleTree \<Rightarrow> error + slot" where
  "getRoot t =
    (case js_nth (layers t) (int (length (layers t)) - 1) of
       None \<Rightarrow> Inl TypeError
     | Some layer \<Rightarrow> Inr (js_nth layer 0))"

text \<open>
  \<^verbatim>\<open>getProof\<close>: the \<^verbatim>\<open>reduce\<close> over the layers. The callback assigns the variable \<^verbatim>\<open>idx\<close>
  of the enclosing call, so the accumulator carries the proof and \<^verbatim>\<open>idx\<close>;
  \<^verbatim>\<open>Math.floor(idx / 2)\<close> on an integer is \<open>idx div 2\<close>.
\<close>

definition getProof_step :: "slot list \<times> int \<Rightarrow> buffer list \<Rightarrow> slot list \<times> int" where
  "getProof_step acc layer =
    (case acc of (proof, idx) \<Rightarrow>
       let sibling = js_xor idx 1
       in (if sibling < int (length layer) then proof @ [js_nth layer sibling] else proof,
           idx div 2))"

definition getProof :: "MerkleTree \<Rightarrow> int \<Rightarrow> slot list" where
  "getProof t idx =
    fst (js_reduce (\<lambda>acc layer k arr. getProof_step acc layer) ([], idx) (layers t))"

text \<open>
  \<^verbatim>\<open>verifyProof\<close> and \<^verbatim>\<open>verifyRoot\<close> (the same body): \<^verbatim>\<open>nodeHash\<close> spreads its argument, which
  throws when \<^verbatim>\<open>this.leafs[idx]\<close> is \<^verbatim>\<open>undefined\<close>. The \<^verbatim>\<open>for\<close> loop over the proof is a
  left fold; \<^verbatim>\<open>pair.equals(root)\<close> is equality of the byte sequences.
\<close>

definition verifyProof :: "MerkleTree \<Rightarrow> int \<Rightarrow> slot list \<Rightarrow> buffer \<Rightarrow> error + bool" where
  "verifyProof t idx proof root' =
    (case js_nth (leafs t) idx of
       None \<Rightarrow> Inl TypeError
     | Some leaf \<Rightarrow> Inr (foldl internalHash (nodeHash leaf) proof = root'))"

definition verifyRoot :: "MerkleTree \<Rightarrow> int \<Rightarrow> slot list \<Rightarrow> buffer \<Rightarrow> error + bool" where
  "verifyRoot t idx proof root' =
    (case js_nth (leafs t) idx of
       None \<Rightarrow> Inl TypeError
     | Some leaf \<Rightarrow> Inr (foldl internalHash (nodeHash leaf) proof = root'))"

text \<open>
  \<^verbatim>\<open>verifyClaim\<close>: the root is the tree's own; \<^verbatim>\<open>pair.equals\<close> throws on \<^verbatim>\<open>undefined\<close>.
\<close>

definition verifyClaim :: "MerkleTree \<Rightarrow> string \<Rightarrow> slot list \<Rightarrow> error + bool" where
  "verifyClaim t item proof =
    (let pair = foldl internalHash (nodeHash (Buffer_from item)) proof
     in case getRoot t of
          Inl e \<Rightarrow> Inl e
        | Inr None \<Rightarrow> Inl TypeError
        | Inr (Some root') \<Rightarrow> Inr (pair = root'))"

section \<open>The verifier as the specification words it\<close>

text \<open>
  The specification's verifier: start from the leaf hash, replace the current value by
  its combination with each sibling of the proof in order, and compare the result with
  the root.
\<close>

primrec spec_recompute :: "buffer \<Rightarrow> slot list \<Rightarrow> buffer" where
  "spec_recompute current [] = current"
| "spec_recompute current (s # rest) = spec_recompute (internalHash current s) rest"

section \<open>The combination rule\<close>

lemma Buffer_compare_pos: "0 < Buffer_compare a b \<longleftrightarrow> b < a"
  by (induction a b rule: Buffer_compare.induct) auto

lemma internalHash_Some:
  "internalHash a (Some b) = keccak_256 (0x01 # (if b < a then b @ a else a @ b))"
  by (simp add: internalHash_def js_sort2_def Buffer_compare_pos)

lemma internalHash_commute: "internalHash a (Some b) = internalHash b (Some a)"
  by (auto simp add: internalHash_Some)

section \<open>The layers and the proof walk\<close>

lemma js_xor_one:
  assumes "- (2 ^ 31) \<le> i" "i < 2 ^ 31"
  shows "js_xor i 1 = (if even i then i + 1 else i - 1)"
proof -
  have "(word_of_int i :: 32 word) XOR word_of_int 1 = word_of_int (i XOR 1)"
    by (simp add: of_int_xor_eq)
  then have "js_xor i 1 = signed_take_bit 31 (i XOR 1)"
    by (simp add: js_xor_def sint_sbintrunc')
  moreover have "i XOR 1 = (if even i then i + 1 else i - 1)"
    by (simp add: xor_one_eq)
  moreover have "- (2 ^ 31) \<le> (if even i then i + 1 else i - 1) \<and> (if even i then i + 1 else i - 1) < 2 ^ 31"
    using assms by (auto elim!: evenE oddE)
  ultimately show ?thesis
    by (simp add: signed_take_bit_int_eq_self)
qed

lemma buildLeaves_map: "buildLeaves d = map Buffer_from d"
proof -
  have "foldl (\<lambda>leaves idx. leaves @ [Buffer_from (d ! idx)]) acc [0..<n]
        = acc @ map (\<lambda>idx. Buffer_from (d ! idx)) [0..<n]" for acc n
    by (induction n) simp_all
  then have "buildLeaves d = map (\<lambda>idx. Buffer_from (d ! idx)) [0..<length d]"
    by (simp add: buildLeaves_def)
  also have "\<dots> = map Buffer_from (map (\<lambda>idx. d ! idx) [0..<length d])"
    by simp
  also have "\<dots> = map Buffer_from d"
    by (simp only: map_nth)
  finally show ?thesis .
qed

lemma js_reduce_foldl: "js_reduce (\<lambda>acc x k arr. g acc x) init xs = foldl g init xs"
proof -
  have "foldl g init (map (\<lambda>i. xs ! i) [0..<length xs])
        = foldl (\<lambda>acc i. g acc (xs ! i)) init [0..<length xs]"
    by (simp add: foldl_map)
  then show ?thesis
    by (simp add: js_reduce_def map_nth)
qed

lemma length_reduce_upto: "length (reduce_upto hs n) = (n + 1) div 2"
  unfolding reduce_upto_def by (induction n) (auto, presburger+)

lemma nth_reduce_upto:
  "j < (n + 1) div 2 \<Longrightarrow> reduce_upto hs n ! j = internalHash (hs ! (2 * j)) (js_nth hs (int (2 * j) + 1))"
proof (induction n)
  case 0
  then show ?case by simp
next
  case (Suc n)
  show ?case
  proof (cases "even n")
    case True
    then have eq: "reduce_upto hs (Suc n) = reduce_upto hs n @ [internalHash (hs ! n) (js_nth hs (int n + 1))]"
      by (simp add: reduce_upto_def)
    show ?thesis
    proof (cases "j < (n + 1) div 2")
      case True
      with Suc.IH show ?thesis by (simp add: eq nth_append length_reduce_upto)
    next
      case False
      with Suc.prems \<open>even n\<close> have "2 * j = n" by presburger
      moreover from this have "j = (n + 1) div 2" by presburger
      ultimately show ?thesis by (simp add: eq nth_append length_reduce_upto)
    qed
  next
    case False
    then have eq: "reduce_upto hs (Suc n) = reduce_upto hs n"
      by (simp add: reduce_upto_def odd_iff_mod_2_eq_one)
    from False Suc.prems have "j < (n + 1) div 2" by presburger
    with Suc.IH show ?thesis by (simp add: eq)
  qed
qed

lemma reduce_layer_upto: "reduce_layer hs = reduce_upto hs (length hs)"
  by (simp add: reduce_layer_def js_reduce_def reduce_upto_def)

lemma getProof_foldl: "getProof t idx = fst (foldl getProof_step ([], idx) (layers t))"
  by (simp only: getProof_def js_reduce_foldl)

lemma length_reduce_layer: "length (reduce_layer hs) = (length hs + 1) div 2"
  by (simp add: reduce_layer_upto length_reduce_upto)

lemma nth_reduce_layer:
  "j < (length hs + 1) div 2 \<Longrightarrow>
   reduce_layer hs ! j = internalHash (hs ! (2 * j)) (js_nth hs (int (2 * j) + 1))"
  by (simp add: reduce_layer_upto nth_reduce_upto)

lemma reduce_layer_shorter: "2 \<le> length hs \<Longrightarrow> length (reduce_layer hs) < length hs"
  by (simp add: length_reduce_layer)

lemma build_layers_step:
  "2 \<le> length hs \<Longrightarrow> build_layers hs ls = build_layers (reduce_layer hs) (ls @ [hs])"
  by (subst build_layers.simps) auto

lemma build_layers_acc: "build_layers hs ls = ls @ build_layers hs []"
proof (induction "length hs" arbitrary: hs ls rule: less_induct)
  case less
  show ?case
  proof (cases "2 \<le> length hs")
    case True
    note lt = reduce_layer_shorter [OF True]
    have a: "build_layers hs ls = build_layers (reduce_layer hs) (ls @ [hs])"
      by (rule build_layers_step [OF True])
    have b: "build_layers (reduce_layer hs) (ls @ [hs]) = (ls @ [hs]) @ build_layers (reduce_layer hs) []"
      by (rule less [OF lt])
    have c: "build_layers hs [] = build_layers (reduce_layer hs) [hs]"
      using build_layers_step [OF True, of "[]"] by simp
    have d: "build_layers (reduce_layer hs) [hs] = [hs] @ build_layers (reduce_layer hs) []"
      by (rule less [OF lt])
    show ?thesis
      by (simp only: a b c d append_assoc)
  next
    case False
    then have "length hs = 0 \<or> length hs = 1"
      by linarith
    then show ?thesis
      by (subst build_layers.simps, subst (2) build_layers.simps) auto
  qed
qed

lemma build_layers_unfold:
  "build_layers hs [] =
    (if hs = [] then [] else if length hs = 1 then [hs] else hs # build_layers (reduce_layer hs) [])"
proof -
  have "build_layers (reduce_layer hs) [hs] = hs # build_layers (reduce_layer hs) []"
    using build_layers_acc [of "reduce_layer hs" "[hs]"] by simp
  then show ?thesis
    by (subst build_layers.simps) simp
qed

lemma getProof_step_acc:
  "fst (foldl getProof_step (p, i) ls) = p @ fst (foldl getProof_step ([], i) ls)"
proof (induction ls arbitrary: p i)
  case Nil
  show ?case by simp
next
  case (Cons l ls)
  obtain q where q: "getProof_step ([], i) l = (q, i div 2)"
    by (simp add: getProof_step_def Let_def)
  then have pq: "getProof_step (p, i) l = (p @ q, i div 2)"
    by (auto simp add: getProof_step_def Let_def split: if_splits)
  show ?case
    using Cons.IH [of "p @ q" "i div 2"] Cons.IH [of q "i div 2"] by (simp add: q pq)
qed

lemma internalHash_None [simp]: "internalHash a None = a"
  by (simp add: internalHash_def)

lemma getProof_step_sibling:
  assumes i: "i < length hs" and small: "i < 2 ^ 31"
  shows "getProof_step (p, int i) hs =
          (if even i then (if i + 1 < length hs then p @ [Some (hs ! (i + 1))] else p)
           else p @ [Some (hs ! (i - 1))], int (i div 2))"
proof -
  have range: "- (2 ^ 31) \<le> int i" "int i < 2 ^ 31"
    using small by simp_all
  have x: "js_xor (int i) 1 = (if even i then int i + 1 else int i - 1)"
    using js_xor_one [OF range] by simp
  show ?thesis
  proof (cases "even i")
    case True
    then show ?thesis
      using i by (simp add: getProof_step_def x js_nth_def nat_add_distrib)
  next
    case False
    then have "0 < i" by (cases i) auto
    with False i show ?thesis
      by (simp add: getProof_step_def x js_nth_def nat_diff_distrib zdiv_int)
  qed
qed

lemma sibling_combines:
  assumes i: "i < length hs" and small: "i < 2 ^ 31"
  shows "foldl internalHash (hs ! i) (fst (getProof_step ([], int i) hs)) = reduce_layer hs ! (i div 2)"
proof -
  have j: "i div 2 < (length hs + 1) div 2"
    using i by linarith
  note nth = nth_reduce_layer [OF j]
  show ?thesis
  proof (cases "even i")
    case True
    then have "2 * (i div 2) = i" by simp
    then show ?thesis
      using i by (simp add: nth getProof_step_sibling [OF i small] True js_nth_def nat_add_distrib)
  next
    case False
    then have "2 * (i div 2) = i - 1" "0 < i"
      by (auto elim!: oddE)
    then show ?thesis
      using i False
      by (simp add: nth getProof_step_sibling [OF i small] js_nth_def internalHash_commute [of "hs ! i"])
  qed
qed

lemma build_layers_last:
  "hs \<noteq> [] \<Longrightarrow> build_layers hs [] \<noteq> [] \<and> length (last (build_layers hs [])) = 1"
proof (induction "length hs" arbitrary: hs rule: less_induct)
  case less
  show ?case
  proof (cases "2 \<le> length hs")
    case True
    then have "reduce_layer hs \<noteq> []"
      using length_reduce_layer [of hs] by auto
    with less.hyps [OF reduce_layer_shorter [OF True]] True show ?thesis
      by (subst (1 2) build_layers_unfold) auto
  next
    case False
    with less.prems have "length hs = 1"
      by (cases hs) (auto simp add: not_less_eq_eq)
    then show ?thesis by (subst (1 2) build_layers_unfold) auto
  qed
qed

lemma round_trip_layers:
  assumes "i < length hs" and "i < 2 ^ 31"
  shows "foldl internalHash (hs ! i) (fst (foldl getProof_step ([], int i) (build_layers hs [])))
         = hd (last (build_layers hs []))"
  using assms
proof (induction "length hs" arbitrary: hs i rule: less_induct)
  case less
  note i = less.prems(1) and small = less.prems(2)
  obtain q where q: "getProof_step ([], int i) hs = (q, int (i div 2))"
    by (simp add: getProof_step_def Let_def zdiv_int)
  have comb: "foldl internalHash (hs ! i) q = reduce_layer hs ! (i div 2)"
    using sibling_combines [OF i small] by (simp add: q)
  show ?case
  proof (cases "2 \<le> length hs")
    case True
    let ?next = "reduce_layer hs"
    have lt: "length ?next < length hs"
      by (rule reduce_layer_shorter [OF True])
    have j: "i div 2 < length ?next"
      using i by (simp add: length_reduce_layer)
    have ne: "?next \<noteq> []"
      using j by auto
    have unf: "build_layers hs [] = hs # build_layers ?next []"
      using True by (subst build_layers_unfold) auto
    have "fst (foldl getProof_step ([], int i) (build_layers hs []))
          = q @ fst (foldl getProof_step ([], int (i div 2)) (build_layers ?next []))"
      by (simp add: unf q getProof_step_acc [of q])
    then have "foldl internalHash (hs ! i) (fst (foldl getProof_step ([], int i) (build_layers hs [])))
          = foldl internalHash (?next ! (i div 2))
              (fst (foldl getProof_step ([], int (i div 2)) (build_layers ?next [])))"
      by (simp add: comb)
    also have "\<dots> = hd (last (build_layers ?next []))"
      using small by (intro less.hyps [OF lt j]) linarith
    also have "\<dots> = hd (last (build_layers hs []))"
      using build_layers_last [OF ne] by (simp add: unf)
    finally show ?thesis .
  next
    case False
    with i have one: "length hs = 1" "i = 0" by auto
    then have unf: "build_layers hs [] = [hs]"
      by (subst build_layers_unfold) auto
    have "reduce_layer hs ! (i div 2) = hs ! i"
      using nth_reduce_layer [of 0 hs] one by (simp add: js_nth_def)
    moreover have "hd hs = hs ! i"
      using one by (cases hs) simp_all
    ultimately show ?thesis
      using comb by (simp add: unf q)
  qed
qed

lemma spec_recompute_foldl: "spec_recompute cur p = foldl internalHash cur p"
  by (induction p arbitrary: cur) simp_all

section \<open>The constructed tree\<close>

lemma leafs_new: "leafs (new_MerkleTree ids) = map Buffer_from ids"
  by (simp add: new_MerkleTree_def buildLeaves_map)

lemma layers_new: "layers (new_MerkleTree ids) = build_layers (map nodeHash (map Buffer_from ids)) []"
  by (simp add: new_MerkleTree_def buildLeaves_map)

lemma build_layers_hd: "hs \<noteq> [] \<Longrightarrow> build_layers hs [] ! 0 = hs"
  by (subst build_layers_unfold) simp

lemma getRoot_layers:
  assumes "hs \<noteq> []" and "layers t = build_layers hs []"
  shows "getRoot t = Inr (Some (hd (last (layers t))))"
proof -
  from build_layers_last [OF assms(1)] assms(2)
  have ne: "layers t \<noteq> []" and one: "length (last (layers t)) = 1"
    by simp_all
  from one have "js_nth (last (layers t)) 0 = Some (hd (last (layers t)))"
    by (cases "last (layers t)") (simp_all add: js_nth_def)
  moreover have "nat (int (length (layers t)) - 1) = length (layers t) - 1"
    by linarith
  with ne have "js_nth (layers t) (int (length (layers t)) - 1) = Some (last (layers t))"
    by (simp add: js_nth_def last_conv_nth)
  ultimately show ?thesis
    by (simp add: getRoot_def)
qed

lemma getRoot_new:
  "ids \<noteq> [] \<Longrightarrow> getRoot (new_MerkleTree ids) = Inr (Some (hd (last (layers (new_MerkleTree ids)))))"
  by (rule getRoot_layers [where hs = "map nodeHash (map Buffer_from ids)"]) (simp_all add: layers_new)

section \<open>The shape of the layers\<close>

lemma keccak_256_length: "length (keccak_256 msg) = 32"
  by (simp add: keccak_256_def Let_def)

lemma nodeHash_not_empty: "nodeHash b \<noteq> []"
  using keccak_256_length [of "0x00 # b"] by (auto simp add: nodeHash_def)

lemma build_layers_cons:
  "2 \<le> length hs \<Longrightarrow> build_layers hs [] = hs # build_layers (reduce_layer hs) []"
  by (subst build_layers_unfold) auto

lemma short_cases: "\<not> 2 \<le> length hs \<Longrightarrow> hs = [] \<or> length hs = 1"
  by (cases hs) (auto simp add: not_less_eq_eq)

lemma build_layers_short:
  "\<not> 2 \<le> length hs \<Longrightarrow> length (build_layers hs []) \<le> 1"
  using short_cases [of hs] by (subst build_layers_unfold) auto

lemma reduce_layer_not_empty: "hs \<noteq> [] \<Longrightarrow> reduce_layer hs \<noteq> []"
  using length_reduce_layer [of hs] by (cases hs) auto

lemma build_layers_Suc:
  "Suc k < length (build_layers hs []) \<Longrightarrow>
   build_layers hs [] ! Suc k = reduce_layer (build_layers hs [] ! k)"
proof (induction "length hs" arbitrary: hs k rule: less_induct)
  case less
  show ?case
  proof (cases "2 \<le> length hs")
    case True
    note cons = build_layers_cons [OF True]
    from True have ne: "reduce_layer hs \<noteq> []"
      by (intro reduce_layer_not_empty) auto
    show ?thesis
    proof (cases k)
      case 0
      then show ?thesis
        by (simp add: cons build_layers_hd [OF ne])
    next
      case (Suc k')
      with less.prems have "Suc k' < length (build_layers (reduce_layer hs) [])"
        by (simp add: cons)
      from less.hyps [OF reduce_layer_shorter [OF True] this] show ?thesis
        by (simp add: cons Suc)
    qed
  next
    case False
    then have "length (build_layers hs []) \<le> 1"
      by (rule build_layers_short)
    with less.prems show ?thesis by simp
  qed
qed

lemma build_layers_continues:
  "k < length (build_layers hs []) \<Longrightarrow> 2 \<le> length (build_layers hs [] ! k) \<Longrightarrow>
   Suc k < length (build_layers hs [])"
proof (induction "length hs" arbitrary: hs k rule: less_induct)
  case less
  show ?case
  proof (cases "2 \<le> length hs")
    case True
    note cons = build_layers_cons [OF True]
    from True have ne: "reduce_layer hs \<noteq> []"
      by (intro reduce_layer_not_empty) auto
    show ?thesis
    proof (cases k)
      case 0
      with build_layers_last [OF ne] show ?thesis
        by (simp add: cons)
    next
      case (Suc k')
      with less.prems
      have "k' < length (build_layers (reduce_layer hs) [])"
        and "2 \<le> length (build_layers (reduce_layer hs) [] ! k')"
        by (simp_all add: cons)
      from less.hyps [OF reduce_layer_shorter [OF True] this] show ?thesis
        by (simp add: cons Suc)
    qed
  next
    case False
    then have "hs = [] \<or> length hs = 1"
      by (rule short_cases)
    then have "build_layers hs [] = [] \<or> build_layers hs [] = [hs]"
      by (subst (1 2) build_layers_unfold) auto
    with less.prems False show ?thesis
      by auto
  qed
qed

lemma reduce_layer_last_odd:
  assumes "odd (length xs)"
  shows "last (reduce_layer xs) = last xs"
proof -
  from assms obtain m where n: "length xs = 2 * m + 1"
    by (auto elim: oddE)
  then have ne: "xs \<noteq> []" by auto
  have len: "length (reduce_layer xs) = m + 1"
    by (simp add: length_reduce_layer n)
  then have "last (reduce_layer xs) = reduce_layer xs ! m"
    by (cases "reduce_layer xs" rule: rev_cases) (auto simp add: nth_append)
  also have "\<dots> = internalHash (xs ! (2 * m)) (js_nth xs (int (2 * m) + 1))"
    by (rule nth_reduce_layer) (simp add: n)
  also have "\<dots> = xs ! (2 * m)"
    by (simp add: js_nth_def n)
  also have "\<dots> = last xs"
    using ne by (simp add: last_conv_nth n)
  finally show ?thesis .
qed

lemma build_layers_count:
  "hs \<noteq> [] \<Longrightarrow> int (length (build_layers hs [])) = \<lceil>log 2 (real (length hs))\<rceil> + 1"
proof (induction "length hs" arbitrary: hs rule: less_induct)
  case less
  show ?case
  proof (cases "2 \<le> length hs")
    case True
    have half: "length (reduce_layer hs) = (length hs - 1) div 2 + 1"
      using True by (simp add: length_reduce_layer)
    from True have ne: "reduce_layer hs \<noteq> []"
      by (intro reduce_layer_not_empty) auto
    have "int (length (build_layers hs [])) = int (length (build_layers (reduce_layer hs) [])) + 1"
      by (simp add: build_layers_cons [OF True])
    also have "\<dots> = \<lceil>log 2 (real ((length hs - 1) div 2 + 1))\<rceil> + 1 + 1"
      using less.hyps [OF reduce_layer_shorter [OF True] ne] by (simp only: half)
    also have "\<dots> = \<lceil>log 2 (real (length hs))\<rceil> + 1"
      using ceiling_log2_div2 [OF True] by simp
    finally show ?thesis .
  next
    case False
    with less.prems have one: "length hs = 1"
      by (cases hs) (auto simp add: not_less_eq_eq)
    then have "build_layers hs [] = [hs]"
      by (subst build_layers_unfold) auto
    then show ?thesis by (simp add: one)
  qed
qed

lemma build_layers_width:
  "hs \<noteq> [] \<Longrightarrow> length hs \<le> 2 ^ (length (build_layers hs []) - 1)"
proof (induction "length hs" arbitrary: hs rule: less_induct)
  case less
  show ?case
  proof (cases "2 \<le> length hs")
    case True
    from True have ne: "reduce_layer hs \<noteq> []"
      by (intro reduce_layer_not_empty) auto
    let ?rest = "build_layers (reduce_layer hs) []"
    from build_layers_last [OF ne] have "0 < length ?rest"
      by simp
    then have pow: "(2::nat) ^ length ?rest = 2 * 2 ^ (length ?rest - 1)"
      by (cases "length ?rest") simp_all
    have "length hs \<le> 2 * length (reduce_layer hs)"
      by (simp add: length_reduce_layer)
    also have "\<dots> \<le> 2 * 2 ^ (length ?rest - 1)"
      using less.hyps [OF reduce_layer_shorter [OF True] ne] by simp
    finally show ?thesis
      by (simp add: build_layers_cons [OF True] pow)
  next
    case False
    with less.prems short_cases [OF False] show ?thesis by simp
  qed
qed

lemma layers_single: "layers (new_MerkleTree [a]) = [[nodeHash (Buffer_from a)]]"
  by (simp add: layers_new build_layers_unfold)

section \<open>The proof walk outside the index range\<close>

lemma negative_index_walk:
  "idx < 0 \<Longrightarrow> - (2 ^ 31) \<le> idx \<Longrightarrow>
   fst (foldl getProof_step (p, idx) ls) = p @ replicate (length ls) None"
proof (induction ls arbitrary: p idx)
  case Nil
  show ?case by simp
next
  case (Cons layer ls)
  have x: "js_xor idx 1 = (if even idx then idx + 1 else idx - 1)"
    using Cons.prems by (intro js_xor_one) simp_all
  have neg: "js_xor idx 1 < 0"
    using Cons.prems by (auto simp add: x elim!: evenE)
  then have step: "getProof_step (p, idx) layer = (p @ [None], idx div 2)"
    by (simp add: getProof_step_def Let_def js_nth_def)
  from Cons.prems have "idx div 2 < 0" "- (2 ^ 31) \<le> idx div 2"
    by simp_all
  from Cons.IH [OF this] show ?case
    by (simp add: step replicate_app_Cons_same)
qed

lemma large_index_step:
  assumes "int (length layer) < idx" and "idx < 2 ^ 31"
  shows "getProof_step (p, idx) layer = (p, idx div 2)"
proof -
  have "js_xor idx 1 = (if even idx then idx + 1 else idx - 1)"
    using assms by (intro js_xor_one) simp_all
  with assms(1) show ?thesis
    by (simp add: getProof_step_def Let_def)
qed

lemma large_index_walk:
  "hs \<noteq> [] \<Longrightarrow> 2 ^ length (build_layers hs []) \<le> idx \<Longrightarrow> idx < 2 ^ 31 \<Longrightarrow>
   fst (foldl getProof_step (p, idx) (build_layers hs [])) = p"
proof (induction "length hs" arbitrary: hs idx rule: less_induct)
  case less
  note ne = less.prems(1) and big = less.prems(2) and small = less.prems(3)
  let ?L = "length (build_layers hs [])"
  from build_layers_last [OF ne] have "0 < ?L"
    by simp
  then have pow: "(2::int) ^ ?L = 2 * 2 ^ (?L - 1)"
    by (cases ?L) simp_all
  have "int (length hs) \<le> 2 ^ (?L - 1)"
    using build_layers_width [OF ne] by (metis of_nat_le_iff of_nat_numeral of_nat_power)
  moreover have "(1::int) \<le> 2 ^ (?L - 1)"
    by simp
  ultimately have wide: "int (length hs) < idx"
    using big pow by linarith
  note step = large_index_step [OF wide small]
  show ?case
  proof (cases "2 \<le> length hs")
    case True
    from True have ne': "reduce_layer hs \<noteq> []"
      by (intro reduce_layer_not_empty) auto
    note cons = build_layers_cons [OF True]
    have "2 ^ length (build_layers (reduce_layer hs) []) \<le> idx div 2"
      using big by (simp add: cons)
    moreover have "idx div 2 < 2 ^ 31"
      using small by simp
    ultimately show ?thesis
      using less.hyps [OF reduce_layer_shorter [OF True] ne'] by (simp add: cons step)
  next
    case False
    with ne short_cases [OF False] have "build_layers hs [] = [hs]"
      by (subst build_layers_unfold) auto
    then show ?thesis by (simp add: step)
  qed
qed

lemma flip_differs: "(b XOR 1) # bs \<noteq> (b :: byte) # bs"
proof
  assume "(b XOR 1) # bs = b # bs"
  then have "even (b XOR 1) = even b" by simp
  then show False by (simp add: even_xor_iff)
qed

section \<open>Claims\<close>

text \<open>
  C1. Membership round trip: for a tree built from a list of \<open>N\<close> identities and an index
  \<open>i\<close> with \<open>0 \<le> i < N\<close> (and below \<open>2^31\<close>, the range in which \<^verbatim>\<open>idx ^ 1\<close> is exact), the
  tree has a root \<open>r\<close>, and \<open>verifyProof\<close> on \<open>i\<close>, the proof \<open>getProof\<close> returns for \<open>i\<close>, and
  \<open>r\<close> returns \<open>true\<close>.
\<close>

theorem C1_membership_round_trip:
  assumes "0 \<le> i" and "i < int (length ids)" and "i < 2 ^ 31"
  shows "\<exists>r. getRoot (new_MerkleTree ids) = Inr (Some r)
           \<and> verifyProof (new_MerkleTree ids) i (getProof (new_MerkleTree ids) i) r = Inr True"
proof -
  let ?t = "new_MerkleTree ids"
  let ?hs = "map nodeHash (map Buffer_from ids)"
  from assms have ne: "ids \<noteq> []" and n: "nat i < length ?hs" "nat i < 2 ^ 31"
    by auto
  have leaf: "js_nth (leafs ?t) i = Some (Buffer_from (ids ! nat i))"
    using assms by (simp add: js_nth_def leafs_new)
  have "foldl internalHash (?hs ! nat i) (getProof ?t i) = hd (last (layers ?t))"
    using round_trip_layers [OF n] assms(1) by (simp add: getProof_foldl layers_new)
  moreover have "?hs ! nat i = nodeHash (Buffer_from (ids ! nat i))"
    using n by simp
  ultimately have "verifyProof ?t i (getProof ?t i) (hd (last (layers ?t))) = Inr True"
    by (simp add: verifyProof_def leaf)
  with getRoot_new [OF ne] show ?thesis
    by blast
qed

text \<open>The round trip for \<open>carol\<close>, the unpaired third leaf of a three-element list.\<close>

theorem C1_membership_round_trip_witness:
  "\<exists>r. getRoot (new_MerkleTree [''alice'', ''bob'', ''carol'']) = Inr (Some r)
     \<and> verifyProof (new_MerkleTree [''alice'', ''bob'', ''carol'']) 2
          (getProof (new_MerkleTree [''alice'', ''bob'', ''carol'']) 2) r = Inr True"
  using C1_membership_round_trip [of 2 "[''alice'', ''bob'', ''carol'']"] by simp

text \<open>
  C2. Leaf domain separation: layer 0 of a tree built from a non-empty list holds, for
  each occurrence of an identity in input order (duplicates included), the keccak-256
  digest of the byte \<open>0x00\<close> followed by the identity's bytes.
\<close>

theorem C2_leaf_domain_separation:
  assumes "ids \<noteq> []"
  shows "layers (new_MerkleTree ids) ! 0 = map (\<lambda>identity. keccak_256 (0x00 # Buffer_from identity)) ids"
proof -
  have "map nodeHash (map Buffer_from ids) = map (\<lambda>identity. keccak_256 (0x00 # Buffer_from identity)) ids"
    by (simp add: nodeHash_def)
  with assms show ?thesis
    by (simp add: layers_new build_layers_hd)
qed

text \<open>A list with a duplicate: one leaf per occurrence, in input order.\<close>

theorem C2_leaf_domain_separation_witness:
  "layers (new_MerkleTree [''bob'', ''alice'', ''bob'']) ! 0
    = [keccak_256 (0x00 # Buffer_from ''bob''), keccak_256 (0x00 # Buffer_from ''alice''),
       keccak_256 (0x00 # Buffer_from ''bob'')]"
  using C2_leaf_domain_separation [of "[''bob'', ''alice'', ''bob'']"] by simp

text \<open>
  C3. For two hashes \<open>a\<close> and \<open>b\<close>, \<open>internalHash\<close> is the digest of the byte \<open>0x01\<close>, then the
  smaller, then the larger of the two in the lexicographic order of their bytes (the
  order of lists over the unsigned order of bytes), whatever their position; so
  exchanging the arguments gives the same hash.
\<close>

theorem C3_internalHash_min_max:
  "internalHash a (Some b) = keccak_256 (0x01 # min a b @ max a b)
   \<and> internalHash a (Some b) = internalHash b (Some a)"
proof
  show "internalHash a (Some b) = keccak_256 (0x01 # min a b @ max a b)"
    by (auto simp add: internalHash_Some min_def max_def)
  show "internalHash a (Some b) = internalHash b (Some a)"
    by (rule internalHash_commute)
qed

text \<open>
  C4. Odd-node carry-forward: in a constructed tree, a layer \<open>k\<close> of odd length greater
  than 1 is followed by a layer \<open>k + 1\<close> of \<open>\<lceil>len / 2\<rceil>\<close> elements whose last element is
  the last element of layer \<open>k\<close>, unchanged.
\<close>

theorem C4_odd_node_carried_forward:
  assumes "k < length (layers (new_MerkleTree ids))"
    and "odd (length (layers (new_MerkleTree ids) ! k))"
    and "1 < length (layers (new_MerkleTree ids) ! k)"
  shows "Suc k < length (layers (new_MerkleTree ids))
       \<and> int (length (layers (new_MerkleTree ids) ! Suc k))
           = \<lceil>real (length (layers (new_MerkleTree ids) ! k)) / 2\<rceil>
       \<and> last (layers (new_MerkleTree ids) ! Suc k) = last (layers (new_MerkleTree ids) ! k)"
proof -
  let ?ls = "layers (new_MerkleTree ids)"
  have ls: "?ls = build_layers (map nodeHash (map Buffer_from ids)) []"
    by (rule layers_new)
  from assms(1,3) have more: "Suc k < length ?ls"
    unfolding ls by (intro build_layers_continues) simp_all
  then have next_layer: "?ls ! Suc k = reduce_layer (?ls ! k)"
    unfolding ls by (rule build_layers_Suc)
  from assms(2) obtain m where m: "length (?ls ! k) = 2 * m + 1"
    by (auto elim: oddE)
  have "\<lceil>real (2 * m + 1) / 2\<rceil> = int m + 1"
    by (rule ceiling_unique) (simp_all add: field_simps)
  then have "int (length (?ls ! Suc k)) = \<lceil>real (length (?ls ! k)) / 2\<rceil>"
    by (simp add: next_layer length_reduce_layer m)
  with more reduce_layer_last_odd [OF assms(2)] show ?thesis
    by (simp add: next_layer)
qed

text \<open>
  Three identities: layer 0 has three hashes, layer 1 has two, and the second is the leaf
  hash of \<open>carol\<close>.
\<close>

theorem C4_odd_node_carried_forward_witness:
  "length (layers (new_MerkleTree [''alice'', ''bob'', ''carol'']) ! 0) = 3
   \<and> Suc 0 < length (layers (new_MerkleTree [''alice'', ''bob'', ''carol'']))
   \<and> length (layers (new_MerkleTree [''alice'', ''bob'', ''carol'']) ! Suc 0) = 2
   \<and> last (layers (new_MerkleTree [''alice'', ''bob'', ''carol'']) ! Suc 0)
       = nodeHash (Buffer_from ''carol'')"
proof -
  let ?t = "new_MerkleTree [''alice'', ''bob'', ''carol'']"
  have l0: "layers ?t ! 0
      = [nodeHash (Buffer_from ''alice''), nodeHash (Buffer_from ''bob''), nodeHash (Buffer_from ''carol'')]"
    by (simp add: layers_new build_layers_hd)
  have "layers ?t \<noteq> []"
    using build_layers_last [of "map nodeHash (map Buffer_from [''alice'', ''bob'', ''carol''])"]
    by (simp add: layers_new)
  then have pos: "0 < length (layers ?t)"
    by simp
  from C4_odd_node_carried_forward [OF pos] show ?thesis
    by (simp add: l0)
qed

text \<open>
  C5. Layer count: a tree built from \<open>N \<ge> 1\<close> identities has \<open>\<lceil>log\<^sub>2 N\<rceil> + 1\<close> layers; the
  last layer has length 1 and its element is what \<open>getRoot\<close> returns.
\<close>

theorem C5_layer_count:
  assumes "ids \<noteq> []"
  shows "int (length (layers (new_MerkleTree ids))) = \<lceil>log 2 (real (length ids))\<rceil> + 1
       \<and> length (last (layers (new_MerkleTree ids))) = 1
       \<and> getRoot (new_MerkleTree ids) = Inr (Some (last (layers (new_MerkleTree ids)) ! 0))"
proof -
  let ?hs = "map nodeHash (map Buffer_from ids)"
  from assms have ne: "?hs \<noteq> []" by simp
  have "int (length (layers (new_MerkleTree ids))) = \<lceil>log 2 (real (length ids))\<rceil> + 1"
    using build_layers_count [OF ne] by (simp add: layers_new)
  moreover have one: "length (last (layers (new_MerkleTree ids))) = 1"
    using build_layers_last [OF ne] by (simp add: layers_new)
  moreover from one have "hd (last (layers (new_MerkleTree ids))) = last (layers (new_MerkleTree ids)) ! 0"
    by (cases "last (layers (new_MerkleTree ids))") simp_all
  ultimately show ?thesis
    by (simp add: getRoot_new [OF assms])
qed

text \<open>Three identities give three layers.\<close>

theorem C5_layer_count_witness:
  "length (layers (new_MerkleTree [''alice'', ''bob'', ''carol''])) = 3
   \<and> length (last (layers (new_MerkleTree [''alice'', ''bob'', ''carol'']))) = 1
   \<and> getRoot (new_MerkleTree [''alice'', ''bob'', ''carol''])
       = Inr (Some (last (layers (new_MerkleTree [''alice'', ''bob'', ''carol''])) ! 0))"
  using C5_layer_count [of "[''alice'', ''bob'', ''carol'']"] ceiling_log_nat_eq_if [of 2 1 3]
  by simp

text \<open>
  The claim that an index outside \<open>[0, N)\<close> makes \<open>getProof\<close> fail does not hold: on the
  tree of the single identity \<open>alice\<close>, index 5 gives the empty proof and index 1 gives a
  proof made of the root itself.
\<close>

theorem C6_getProof_out_of_range_counterexample:
  "getProof (new_MerkleTree [''alice'']) 5 = []
   \<and> getProof (new_MerkleTree [''alice'']) 1 = [Some (nodeHash (Buffer_from ''alice''))]"
proof -
  have "js_xor 5 1 = 4" "js_xor 1 1 = 0" "js_xor 2 1 = 3" "js_xor 0 1 = 1"
    by (simp_all add: js_xor_one)
  then show ?thesis
    by (simp add: getProof_foldl layers_single getProof_step_def js_nth_def)
qed

text \<open>
  C6, as the code has it. \<open>getProof\<close> has no failure path; for an index outside \<open>[0, N)\<close>
  it returns a list like for any other. For a negative index (down to \<open>-2^31\<close>) the list
  is one \<^verbatim>\<open>undefined\<close> per layer; for an index from \<open>2^L\<close> on (\<open>L\<close> the number of layers,
  up to \<open>2^31\<close>) it is the empty proof.
\<close>

theorem C6_getProof_out_of_range:
  "(- (2 ^ 31) \<le> idx \<and> idx < 0 \<longrightarrow>
      getProof (new_MerkleTree ids) idx = replicate (length (layers (new_MerkleTree ids))) None)
   \<and> (2 ^ length (layers (new_MerkleTree ids)) \<le> idx \<and> idx < 2 ^ 31 \<longrightarrow>
      getProof (new_MerkleTree ids) idx = [])"
proof (intro conjI impI)
  assume "- (2 ^ 31) \<le> idx \<and> idx < 0"
  then show "getProof (new_MerkleTree ids) idx = replicate (length (layers (new_MerkleTree ids))) None"
    using negative_index_walk [of idx "[]" "layers (new_MerkleTree ids)"] by (simp add: getProof_foldl)
next
  assume big: "2 ^ length (layers (new_MerkleTree ids)) \<le> idx \<and> idx < 2 ^ 31"
  show "getProof (new_MerkleTree ids) idx = []"
  proof (cases "ids = []")
    case True
    then show ?thesis
      by (simp add: getProof_foldl layers_new build_layers_unfold)
  next
    case False
    then have "map nodeHash (map Buffer_from ids) \<noteq> []" by simp
    from large_index_walk [OF this, of idx "[]"] big show ?thesis
      by (simp add: getProof_foldl layers_new)
  qed
qed

text \<open>Three identities, three layers: the indices \<open>-1\<close> and \<open>8\<close>.\<close>

theorem C6_getProof_out_of_range_witness:
  "getProof (new_MerkleTree [''alice'', ''bob'', ''carol'']) (- 1) = [None, None, None]
   \<and> getProof (new_MerkleTree [''alice'', ''bob'', ''carol'']) 8 = []"
proof -
  let ?ids = "[''alice'', ''bob'', ''carol'']"
  have "int (length (layers (new_MerkleTree ?ids))) = 3"
    using build_layers_count [of "map nodeHash (map Buffer_from ?ids)"] ceiling_log_nat_eq_if [of 2 1 3]
    by (simp add: layers_new)
  then have three: "length (layers (new_MerkleTree ?ids)) = 3"
    by simp
  from C6_getProof_out_of_range [of "- 1" ?ids] C6_getProof_out_of_range [of 8 ?ids]
  show ?thesis
    by (simp add: three numeral_3_eq_3)
qed

text \<open>
  C7. Verifier mismatch: for a stored leaf, any proof and any root, \<open>verifyProof\<close>
  returns a boolean, \<open>true\<close> exactly when the root recomputed from the leaf hash by
  combining the proof elements in order equals the supplied root; \<open>verifyClaim\<close> does
  the same from the hash of the given identity against the tree's own root. Neither
  throws, whatever the proof.
\<close>

theorem C7_verifier_mismatch_is_false:
  assumes "0 \<le> i" and "i < int (length ids)"
  shows "verifyProof (new_MerkleTree ids) i p r
           = Inr (spec_recompute (nodeHash (Buffer_from (ids ! nat i))) p = r)
         \<and> (\<exists>own. getRoot (new_MerkleTree ids) = Inr (Some own)
               \<and> verifyClaim (new_MerkleTree ids) item p
                   = Inr (spec_recompute (nodeHash (Buffer_from item)) p = own))"
proof -
  from assms have ne: "ids \<noteq> []" by auto
  have "js_nth (leafs (new_MerkleTree ids)) i = Some (Buffer_from (ids ! nat i))"
    using assms by (simp add: js_nth_def leafs_new)
  then have "verifyProof (new_MerkleTree ids) i p r
           = Inr (spec_recompute (nodeHash (Buffer_from (ids ! nat i))) p = r)"
    by (simp add: verifyProof_def spec_recompute_foldl)
  moreover have "verifyClaim (new_MerkleTree ids) item p
      = Inr (spec_recompute (nodeHash (Buffer_from item)) p = hd (last (layers (new_MerkleTree ids))))"
    by (simp add: verifyClaim_def getRoot_new [OF ne] spec_recompute_foldl)
  ultimately show ?thesis
    using getRoot_new [OF ne] by simp
qed

text \<open>
  An empty root is a mismatch for the first leaf and the empty proof: the result is the
  value \<open>false\<close>; \<open>verifyClaim\<close> for an identity that is not in the list returns a boolean
  too.
\<close>

theorem C7_verifier_mismatch_is_false_witness:
  "verifyProof (new_MerkleTree [''alice'', ''bob'', ''carol'']) 0 [] [] = Inr False
   \<and> (\<exists>own. getRoot (new_MerkleTree [''alice'', ''bob'', ''carol'']) = Inr (Some own)
         \<and> verifyClaim (new_MerkleTree [''alice'', ''bob'', ''carol'']) ''dave'' []
             = Inr (nodeHash (Buffer_from ''dave'') = own))"
  using C7_verifier_mismatch_is_false [of 0 "[''alice'', ''bob'', ''carol'']" "[]" "[]" "''dave''"]
  by (simp add: nodeHash_not_empty)

text \<open>
  The claim that the entry point for raw identities decides against a root supplied from
  elsewhere does not hold: it has no such parameter. Against a root that differs from the
  tree's own in one bit, \<open>verifyProof\<close> answers \<open>false\<close> for \<open>alice\<close> and the empty proof;
  \<open>verifyClaim\<close> answers \<open>true\<close>, for it compares with the tree's own root.
\<close>

theorem C8_verifyClaim_external_root_counterexample:
  "verifyClaim (new_MerkleTree [''alice'']) ''alice'' [] = Inr True
   \<and> verifyProof (new_MerkleTree [''alice'']) 0 []
        ((hd (nodeHash (Buffer_from ''alice'')) XOR 1) # tl (nodeHash (Buffer_from ''alice'')))
       = Inr False"
proof -
  let ?own = "nodeHash (Buffer_from ''alice'')"
  have root: "getRoot (new_MerkleTree [''alice'']) = Inr (Some ?own)"
    by (simp add: getRoot_def layers_single js_nth_def)
  have leaf: "js_nth (leafs (new_MerkleTree [''alice''])) 0 = Some (Buffer_from ''alice'')"
    by (simp add: leafs_new js_nth_def)
  obtain b bs where own: "?own = b # bs"
    using nodeHash_not_empty [of "Buffer_from ''alice''"] by (cases ?own) auto
  have "(hd ?own XOR 1) # tl ?own \<noteq> ?own"
    using flip_differs [of b bs] by (simp add: own)
  then show ?thesis
    by (simp add: verifyClaim_def verifyProof_def root leaf)
qed

text \<open>
  C8, as the code has it. \<open>verifyClaim\<close> takes the identity and the proof only. It
  recomputes the root from the hash of \<open>0x00\<close> and the identity's bytes and compares it
  with the root of the tree it is called on; for a listed identity that is the answer of
  \<open>verifyProof\<close> at that index when it is handed the tree's own root.
\<close>

theorem C8_verifyClaim_own_root:
  assumes "0 \<le> i" and "i < int (length ids)"
  shows "\<exists>own. getRoot (new_MerkleTree ids) = Inr (Some own)
          \<and> verifyClaim (new_MerkleTree ids) item p
              = Inr (foldl internalHash (nodeHash (Buffer_from item)) p = own)
          \<and> verifyClaim (new_MerkleTree ids) (ids ! nat i) p = verifyProof (new_MerkleTree ids) i p own"
proof -
  from assms have ne: "ids \<noteq> []" by auto
  have leaf: "js_nth (leafs (new_MerkleTree ids)) i = Some (Buffer_from (ids ! nat i))"
    using assms by (simp add: js_nth_def leafs_new)
  show ?thesis
    by (simp add: verifyClaim_def verifyProof_def leaf getRoot_new [OF ne])
qed

text \<open>Two identities: an outsider, and the identity at index 1.\<close>

theorem C8_verifyClaim_own_root_witness:
  "\<exists>own. getRoot (new_MerkleTree [''alice'', ''bob'']) = Inr (Some own)
      \<and> verifyClaim (new_MerkleTree [''alice'', ''bob'']) ''dave'' []
          = Inr (nodeHash (Buffer_from ''dave'') = own)
      \<and> verifyClaim (new_MerkleTree [''alice'', ''bob'']) ''bob'' []
          = verifyProof (new_MerkleTree [''alice'', ''bob'']) 1 [] own"
  using C8_verifyClaim_own_root [of 1 "[''alice'', ''bob'']" "''dave''" "[]"] by simp

text \<open>
  C9. Empty allowlist: the tree built from no identity has no layer, hence no root:
  \<open>getRoot\<close> throws, and so does every verifier (\<open>verifyProof\<close>, \<open>verifyRoot\<close>,
  \<open>verifyClaim\<close>) for every index, identity, proof and root. None of them returns
  \<open>true\<close>.
\<close>

theorem C9_empty_allowlist_fails_closed:
  "layers (new_MerkleTree []) = []
   \<and> getRoot (new_MerkleTree []) = Inl TypeError
   \<and> verifyProof (new_MerkleTree []) idx p r = Inl TypeError
   \<and> verifyRoot (new_MerkleTree []) idx p r = Inl TypeError
   \<and> verifyClaim (new_MerkleTree []) item p = Inl TypeError"
proof -
  have "layers (new_MerkleTree []) = []"
    by (simp add: layers_new build_layers_unfold)
  moreover have "leafs (new_MerkleTree []) = []"
    by (simp add: leafs_new)
  ultimately show ?thesis
    by (simp add: getRoot_def verifyProof_def verifyRoot_def verifyClaim_def js_nth_def)
qed

text \<open>
  C10. Stored leaves and layer 0: in a constructed tree, for an index \<open>i\<close> in range,
  \<open>leafs\<close> holds the bytes of the \<open>i\<close>-th identity (not their hash), element \<open>i\<close> of layer
  0 is \<open>nodeHash\<close> of it, and \<open>verifyProof\<close> starts from \<open>nodeHash\<close> of the stored leaf: its
  result does not depend on the \<open>layers\<close> field.
\<close>

theorem C10_leafs_and_layer0:
  assumes "i < length ids"
  shows "leafs (new_MerkleTree ids) ! i = Buffer_from (ids ! i)
       \<and> layers (new_MerkleTree ids) ! 0 ! i = nodeHash (leafs (new_MerkleTree ids) ! i)
       \<and> verifyProof (new_MerkleTree ids) (int i) p r
           = Inr (foldl internalHash (nodeHash (leafs (new_MerkleTree ids) ! i)) p = r)
       \<and> verifyProof ((new_MerkleTree ids)\<lparr>layers := ls\<rparr>) (int i) p r
           = verifyProof (new_MerkleTree ids) (int i) p r"
proof -
  from assms have ne: "map nodeHash (map Buffer_from ids) \<noteq> []"
    by auto
  have "layers (new_MerkleTree ids) ! 0 = map nodeHash (map Buffer_from ids)"
    by (simp only: layers_new build_layers_hd [OF ne])
  with assms show ?thesis
    by (simp add: leafs_new verifyProof_def js_nth_def)
qed

text \<open>Two identities, index 1, with the layers emptied.\<close>

theorem C10_leafs_and_layer0_witness:
  "leafs (new_MerkleTree [''alice'', ''bob'']) ! 1 = Buffer_from ''bob''
   \<and> layers (new_MerkleTree [''alice'', ''bob'']) ! 0 ! 1 = nodeHash (Buffer_from ''bob'')
   \<and> verifyProof (new_MerkleTree [''alice'', ''bob'']) 1 [] [] = Inr False
   \<and> verifyProof ((new_MerkleTree [''alice'', ''bob''])\<lparr>layers := []\<rparr>) 1 [] [] = Inr False"
  using C10_leafs_and_layer0 [of 1 "[''alice'', ''bob'']" "[]" "[]" "[]"]
  by (simp add: nodeHash_not_empty)

end
